theory Spec2Isabelle
  imports Complex_Main "HOL-Library.Word" "HOL-Library.Multiset"
begin

section \<open>Data model\<close>

text \<open>
  The scheduler simulates four CPU scheduling policies over a list of processes read
  from a CSV file. All times and identifiers are Go \<open>int64\<close> values: they are modelled
  as 64-bit words, so \<open>+\<close> and \<open>-\<close> wrap around as in Go, and the comparisons of the
  source are the signed ones (\<open><s\<close>, \<open>\<le>s\<close>).
\<close>

type_synonym int64 = "64 word"

record Process =
  ProcessID :: int64
  ArrivalTime :: int64
  BurstDuration :: int64
  Priority :: int64

record TimeSlice =
  PID :: int64
  Start :: int64
  Stop :: int64

text \<open>
  A row of the schedule table. The source stores the seven numbers formatted with
  \<open>fmt.Sprint\<close>; the model keeps the numbers. A slot of the table that was never
  written is \<open>nil\<close> in Go and \<open>None\<close> here.
\<close>

record Row =
  RowID :: int64
  RowPriority :: int64
  RowBurst :: int64
  RowArrival :: int64
  RowWait :: int64
  RowTurnaround :: int64
  RowExit :: int64

text \<open>
  The statistics are \<open>float64\<close> values. The model keeps the exceptional values of a
  float division apart from the finite ones and computes the finite ones exactly, as
  rationals: rounding is not modelled. Conversions \<open>float64(x)\<close> of an \<open>int64\<close> are
  exact up to \<open>2 ^ 53\<close> in magnitude.
\<close>

datatype float64 = Finite rat | PosInf | NegInf | NaN

definition float64_of :: "int64 \<Rightarrow> rat" where
  "float64_of x = of_int (sint x)"

definition fdiv :: "rat \<Rightarrow> rat \<Rightarrow> float64" where
  "fdiv x y =
     (if y = 0 then (if x = 0 then NaN else if 0 < x then PosInf else NegInf)
      else Finite (x / y))"

record Output =
  out_gantt :: "TimeSlice list"
  out_schedule :: "Row option list"
  aveWait :: float64
  aveTurnaround :: float64
  aveThroughput :: float64

section \<open>First-come, first-serve\<close>

text \<open>The local variables of \<open>FCFSSchedule\<close>, \<open>SJFSchedule\<close> and \<open>SJFPrioritySchedule\<close>.\<close>

record sched_state =
  serviceTime :: int64
  totalWait :: rat
  totalTurnaround :: rat
  lastCompletion :: rat
  waitingTime :: int64
  schedule :: "Row option list"
  gantt :: "TimeSlice list"

definition init_state :: "nat \<Rightarrow> sched_state" where
  "init_state n =
     \<lparr>serviceTime = 0, totalWait = 0, totalTurnaround = 0, lastCompletion = 0,
      waitingTime = 0, schedule = replicate n None, gantt = []\<rparr>"

text \<open>
  The accounting of one process \<open>p\<close> whose row goes to slot \<open>i\<close> of the table: lines
  95 to 123 of \<open>FCFSSchedule\<close>, repeated verbatim in \<open>SJFSchedule\<close> (151 to 179) and in
  \<open>SJFPrioritySchedule\<close> (232 to 260). The table has one slot for each process and \<open>i\<close>
  is the index of a process, so the write is always in range.
\<close>

definition account :: "Process \<Rightarrow> nat \<Rightarrow> sched_state \<Rightarrow> sched_state" where
  "account p i st =
     (let waitingTime' =
            (if 0 <s ArrivalTime p then serviceTime st - ArrivalTime p else waitingTime st);
          start = waitingTime' + ArrivalTime p;
          turnaround = BurstDuration p + waitingTime';
          completion = BurstDuration p + ArrivalTime p + waitingTime';
          serviceTime' = serviceTime st + BurstDuration p
      in \<lparr>serviceTime = serviceTime',
          totalWait = totalWait st + float64_of waitingTime',
          totalTurnaround = totalTurnaround st + float64_of turnaround,
          lastCompletion = float64_of completion,
          waitingTime = waitingTime',
          schedule = (schedule st)[i :=
            Some \<lparr>RowID = ProcessID p, RowPriority = Priority p, RowBurst = BurstDuration p,
                  RowArrival = ArrivalTime p, RowWait = waitingTime',
                  RowTurnaround = turnaround, RowExit = completion\<rparr>],
          gantt = gantt st @ [\<lparr>PID = ProcessID p, Start = start, Stop = serviceTime'\<rparr>]\<rparr>)"

text \<open>The statistics and the three output calls at the end of the first three policies.\<close>

definition report :: "nat \<Rightarrow> sched_state \<Rightarrow> Output" where
  "report n st =
     (let count = of_nat n
      in \<lparr>out_gantt = gantt st, out_schedule = schedule st,
          aveWait = fdiv (totalWait st) count,
          aveTurnaround = fdiv (totalTurnaround st) count,
          aveThroughput = fdiv count (lastCompletion st)\<rparr>)"

text \<open>
  The loop \<open>for i := range processes\<close> of \<open>FCFSSchedule\<close> and \<open>SJFSchedule\<close>: the
  process at index \<open>i\<close> is accounted into row \<open>i\<close>.
\<close>

definition serve_in_order :: "Process list \<Rightarrow> sched_state" where
  "serve_in_order processes =
     foldl (\<lambda>st i. account (processes ! i) i st) (init_state (length processes))
       [0..<length processes]"

text \<open>\<open>FCFSSchedule\<close> only reads the slice it is given: the caller's array is unchanged.\<close>

definition FCFSSchedule :: "Process list \<Rightarrow> Output" where
  "FCFSSchedule processes = report (length processes) (serve_in_order processes)"

section \<open>Sorting\<close>

text \<open>
  \<open>sort.Slice\<close> belongs to the Go standard library, not to this program: the policies
  take it as a parameter \<open>srt\<close>. It receives the order \<open>lt\<close> and the slice, and sorts the
  slice in place, so that the result is also what the caller's array holds afterwards.
  Its documentation promises a permutation of the slice in which no element is
  \<open>lt\<close> than an earlier one, and states that the sort is not guaranteed to be
  stable.
\<close>

type_synonym sorter = "(Process \<Rightarrow> Process \<Rightarrow> bool) \<Rightarrow> Process list \<Rightarrow> Process list"

definition sort_Slice_post ::
    "(Process \<Rightarrow> Process \<Rightarrow> bool) \<Rightarrow> Process list \<Rightarrow> Process list \<Rightarrow> bool" where
  "sort_Slice_post lt xs ys \<longleftrightarrow>
     mset ys = mset xs \<and> sorted_wrt (\<lambda>a b. \<not> lt b a) ys"

text \<open>The two orders the policies sort by (lines 147 to 149, 204 to 206 and 289 to 291).\<close>

definition burst_less :: "Process \<Rightarrow> Process \<Rightarrow> bool" where
  "burst_less a b \<longleftrightarrow> BurstDuration a <s BurstDuration b"

definition arrival_less :: "Process \<Rightarrow> Process \<Rightarrow> bool" where
  "arrival_less a b \<longleftrightarrow> ArrivalTime a <s ArrivalTime b"

text \<open>
  A sorter to run the model with: the insertion sort that Go's \<open>sort\<close> package applies
  to short slices. Each element moves left while it is \<open>lt\<close> than its left neighbour.
\<close>

fun insert_left :: "(Process \<Rightarrow> Process \<Rightarrow> bool) \<Rightarrow> Process \<Rightarrow> Process list \<Rightarrow> Process list" where
  "insert_left lt x [] = [x]"
| "insert_left lt x (y # ys) =
     (if lt x y then x # y # ys else y # insert_left lt x ys)"

definition insertion_sort :: sorter where
  "insertion_sort lt xs = foldl (\<lambda>acc x. insert_left lt x acc) [] xs"

section \<open>Shortest job first\<close>

text \<open>
  \<open>SJFSchedule\<close> sorts the slice by burst duration and then runs the loop of
  \<open>FCFSSchedule\<close> on it. The second component is the caller's array after the call.
\<close>

definition SJFSchedule :: "sorter \<Rightarrow> Process list \<Rightarrow> Output \<times> Process list" where
  "SJFSchedule srt processes =
     (let processes' = srt burst_less processes
      in (report (length processes') (serve_in_order processes'), processes'))"

section \<open>Shortest job first among the arrived processes (the "priority" policy)\<close>

text \<open>
  The scan of lines 214 to 223: \<open>nextProcess\<close> is \<open>None\<close> for the source's \<open>-1\<close>. The
  scan stops at the first process that has not arrived.
\<close>

function find_next :: "Process list \<Rightarrow> int64 \<Rightarrow> nat \<Rightarrow> nat option \<Rightarrow> nat option" where
  "find_next processes t i nextProcess =
     (if i < length processes then
        (if ArrivalTime (processes ! i) \<le>s t then
           find_next processes t (i + 1)
             (case nextProcess of
                None \<Rightarrow> Some i
              | Some k \<Rightarrow>
                  if BurstDuration (processes ! i) <s BurstDuration (processes ! k)
                  then Some i else Some k)
         else nextProcess)
      else nextProcess)"
  by pat_completeness auto
termination
  by (relation "measure (\<lambda>(processes, t, i, nextProcess). length processes - i)") auto

declare find_next.simps [simp del]

text \<open>
  The state of the outer loop: the array, \<open>lastExecuted\<close> and the accounting variables.
  One iteration either skips ahead to the arrival of \<open>processes[lastExecuted]\<close> or
  executes the selected process and overwrites its slot with \<open>processes[lastExecuted]\<close>.
\<close>

type_synonym prio_state = "Process list \<times> nat \<times> sched_state"

definition prio_step :: "prio_state \<Rightarrow> prio_state" where
  "prio_step s =
     (case s of (processes, lastExecuted, st) \<Rightarrow>
        (case find_next processes (serviceTime st) lastExecuted None of
           None \<Rightarrow>
             (processes, lastExecuted,
              st\<lparr>serviceTime := ArrivalTime (processes ! lastExecuted)\<rparr>)
         | Some nextProcess \<Rightarrow>
             (processes[nextProcess := processes ! lastExecuted], lastExecuted + 1,
              account (processes ! nextProcess) nextProcess st)))"

definition prio_pending :: "prio_state \<Rightarrow> bool" where
  "prio_pending s \<longleftrightarrow> (case s of (processes, lastExecuted, st) \<Rightarrow> lastExecuted < length processes)"

definition prio_measure :: "prio_state \<Rightarrow> nat" where
  "prio_measure s =
     (case s of (processes, lastExecuted, st) \<Rightarrow>
        2 * (length processes - lastExecuted) +
        (if find_next processes (serviceTime st) lastExecuted None = None then 1 else 0))"

function SJFPriority_loop :: "prio_state \<Rightarrow> prio_state" where
  "SJFPriority_loop s = (if prio_pending s then SJFPriority_loop (prio_step s) else s)"
  by pat_completeness auto
termination
proof (relation "measure prio_measure")
  show "wf (measure prio_measure)" by simp
next
  fix s :: prio_state
  assume pending: "prio_pending s"
  have found: "find_next processes t i (Some k) \<noteq> None" for processes t i k
    by (induction processes t i "Some k :: nat option" arbitrary: k rule: find_next.induct)
       (subst find_next.simps, simp)
  have after_skip: "find_next processes (ArrivalTime (processes ! i)) i None \<noteq> None"
    if "i < length processes" for processes i
    using that by (subst find_next.simps) (simp add: found)
  from pending have "prio_measure (prio_step s) < prio_measure s"
    by (cases s)
       (auto simp: prio_pending_def prio_measure_def prio_step_def after_skip
             split: option.splits)
  then show "(prio_step s, s) \<in> measure prio_measure" by simp
qed

declare SJFPriority_loop.simps [simp del]

definition SJFPrioritySchedule :: "sorter \<Rightarrow> Process list \<Rightarrow> Output \<times> Process list" where
  "SJFPrioritySchedule srt processes =
     (let processes' = srt arrival_less processes;
          final = SJFPriority_loop (processes', 0, init_state (length processes'))
      in (report (length processes') (snd (snd final)), fst final))"

section \<open>Round robin\<close>

text \<open>
  Indexing a slice out of range panics in Go. The four places of \<open>RRSchedule\<close> that
  index a slice with no check before are told apart (\<open>processes[0]\<close> in line 303,
  \<open>queue[0]\<close> in line 307, the row write in line 348 and the last interval in line
  363); the panic carries the index and the length, as the message of the Go runtime
  does.
\<close>

datatype site = ProcessesHead | QueueHead | ScheduleRow | GanttLast

datatype panic = IndexOutOfRange site int nat

record rr_state =
  currentTime :: int64
  rr_totalWait :: rat
  rr_totalTurnaround :: rat
  queue :: "Process list"
  rr_schedule :: "Row option list"
  rr_gantt :: "TimeSlice list"
  remaining :: "Process list"

text \<open>
  Lines 296 to 299 and 335 to 338: the processes at the front of the remaining slice
  that have arrived move to the back of the queue.
\<close>

fun admit :: "int64 \<Rightarrow> Process list \<Rightarrow> Process list \<Rightarrow> Process list \<times> Process list" where
  "admit t q [] = (q, [])"
| "admit t q (p # ps) =
     (if ArrivalTime p \<le>s t then admit t (q @ [p]) ps else (q, p # ps))"

text \<open>
  The inner loop \<open>for burstLeft > 0\<close> (lines 317 to 339) on the state and the local
  variables \<open>completion\<close>, \<open>burstLeft\<close> and \<open>timeElapsed\<close>. The quantum \<open>timeSlice\<close> is a
  \<open>float64\<close> in the source; the model takes a whole number of time units, as the call
  in \<open>main\<close> gives, so that \<open>math.Min(float64(burstLeft), timeSlice)\<close> is the smaller of
  the two and the conversions back to \<open>int64\<close> change nothing. With a quantum of zero the
  loop of the source never ends: the loop is a partial function, \<open>None\<close> when it does
  not return.
\<close>

type_synonym run_state = "rr_state \<times> int64 \<times> int64 \<times> int64"

definition one_slice :: "int64 \<Rightarrow> Process \<Rightarrow> int64 \<Rightarrow> run_state \<Rightarrow> run_state" where
  "one_slice timeSlice process start r =
     (case r of (s, completion, burstLeft, timeElapsed) \<Rightarrow>
        (let timeSpent = (if burstLeft \<le>s timeSlice then burstLeft else timeSlice);
             completion' = currentTime s + timeSpent;
             (queue', remaining') = admit completion' (queue s) (remaining s)
         in (s\<lparr>currentTime := completion',
               rr_gantt := rr_gantt s @
                 [\<lparr>PID = ProcessID process, Start = start, Stop = completion'\<rparr>],
               queue := queue', remaining := remaining'\<rparr>,
             completion', burstLeft - timeSpent, timeElapsed + timeSpent)))"

partial_function (option) run_slices ::
    "int64 \<Rightarrow> Process \<Rightarrow> int64 \<Rightarrow> run_state \<Rightarrow> run_state option" where
  "run_slices timeSlice process start r =
     (case r of (s, completion, burstLeft, timeElapsed) \<Rightarrow>
        if 0 <s burstLeft then run_slices timeSlice process start (one_slice timeSlice process start r)
        else Some r)"

declare run_slices.simps [code]

text \<open>
  One iteration of the outer loop (lines 295 to 356): admit the arrived processes, take
  the head of the queue, run it, and store its row at index \<open>ProcessID - 1\<close>.
\<close>

definition store_row :: "Process \<Rightarrow> run_state \<Rightarrow> panic + rr_state" where
  "store_row process r =
     (case r of (s, completion, burstLeft, timeElapsed) \<Rightarrow>
        (let waitingTime = currentTime s - ArrivalTime process - BurstDuration process;
             turnaround = waitingTime + BurstDuration process + timeElapsed;
             idx = sint (ProcessID process - 1)
         in if 0 \<le> idx \<and> idx < int (length (rr_schedule s)) then
              Inr (s\<lparr>rr_totalWait := rr_totalWait s + float64_of waitingTime,
                     rr_totalTurnaround := rr_totalTurnaround s + float64_of turnaround,
                     rr_schedule := (rr_schedule s)[nat idx :=
                       Some \<lparr>RowID = ProcessID process, RowPriority = Priority process,
                             RowBurst = BurstDuration process,
                             RowArrival = ArrivalTime process, RowWait = waitingTime,
                             RowTurnaround = turnaround, RowExit = completion\<rparr>]\<rparr>)
            else Inl (IndexOutOfRange ScheduleRow idx (length (rr_schedule s)))))"

definition dispatch :: "int64 \<Rightarrow> rr_state \<Rightarrow> (panic + rr_state) option" where
  "dispatch timeSlice s =
     (let (queue1, remaining1) = admit (currentTime s) (queue s) (remaining s);
          currentTime1 =
            (if queue1 = [] then (case remaining1 of [] \<Rightarrow> None | p # _ \<Rightarrow> Some (ArrivalTime p))
             else Some (currentTime s))
      in case currentTime1 of
           None \<Rightarrow> Some (Inl (IndexOutOfRange ProcessesHead 0 0))
         | Some t \<Rightarrow>
             (case queue1 of
                [] \<Rightarrow> Some (Inl (IndexOutOfRange QueueHead 0 0))
              | process # queue2 \<Rightarrow>
                  (case run_slices timeSlice process t
                          (s\<lparr>currentTime := t, queue := queue2, remaining := remaining1\<rparr>,
                           0, BurstDuration process, 0) of
                     None \<Rightarrow> None
                   | Some r \<Rightarrow> Some (store_row process r))))"

partial_function (option) RR_loop :: "int64 \<Rightarrow> rr_state \<Rightarrow> (panic + rr_state) option" where
  "RR_loop timeSlice s =
     (if queue s \<noteq> [] \<or> remaining s \<noteq> [] then
        (case dispatch timeSlice s of
           None \<Rightarrow> None
         | Some (Inl e) \<Rightarrow> Some (Inl e)
         | Some (Inr s') \<Rightarrow> RR_loop timeSlice s')
      else Some (Inr s))"

declare RR_loop.simps [code]

text \<open>
  The statistics of lines 360 to 363 read the last element of the Gantt chart. The
  second component of the result is the caller's array after the call: the sort works
  in place, while \<open>processes = processes[1:]\<close> only moves the local slice header.
\<close>

definition rr_report :: "rr_state \<Rightarrow> panic + Output" where
  "rr_report s =
     (let count = of_nat (length (rr_schedule s))
      in if rr_gantt s = [] then Inl (IndexOutOfRange GanttLast (- 1) 0)
         else Inr \<lparr>out_gantt = rr_gantt s, out_schedule = rr_schedule s,
                   aveWait = fdiv (rr_totalWait s) count,
                   aveTurnaround = fdiv (rr_totalTurnaround s) count,
                   aveThroughput = fdiv count (float64_of (Stop (last (rr_gantt s))))\<rparr>)"

definition RRSchedule ::
    "sorter \<Rightarrow> Process list \<Rightarrow> int64 \<Rightarrow> (panic + Output \<times> Process list) option" where
  "RRSchedule srt processes timeSlice =
     (let processes' = srt arrival_less processes
      in case RR_loop timeSlice
                \<lparr>currentTime = 0, rr_totalWait = 0, rr_totalTurnaround = 0, queue = [],
                 rr_schedule = replicate (length processes') None, rr_gantt = [],
                 remaining = processes'\<rparr> of
           None \<Rightarrow> None
         | Some (Inl e) \<Rightarrow> Some (Inl e)
         | Some (Inr s) \<Rightarrow>
             (case rr_report s of Inl e \<Rightarrow> Some (Inl e)
              | Inr out \<Rightarrow> Some (Inr (out, processes'))))"

section \<open>The four runs of main\<close>

text \<open>
  \<open>main\<close> passes the same slice to the four policies, one after the other (lines 33 to
  43): each policy works on the array as the policies before it left it.
\<close>

record Runs =
  run_FCFS :: Output
  run_SJF :: Output
  run_Priority :: Output
  run_RR :: "(panic + Output) option"

definition main_runs :: "sorter \<Rightarrow> Process list \<Rightarrow> Runs" where
  "main_runs srt processes =
     (let fcfs = FCFSSchedule processes;
          (sjf, processes1) = SJFSchedule srt processes;
          (prio, processes2) = SJFPrioritySchedule srt processes1;
          rr = RRSchedule srt processes2 1
      in \<lparr>run_FCFS = fcfs, run_SJF = sjf, run_Priority = prio,
          run_RR = map_option (map_sum id fst) rr\<rparr>)"

section \<open>Auxiliary definitions for the properties\<close>

text \<open>
  A process as a line of the input file gives it: \<open>ProcessID,BurstDuration,ArrivalTime,Priority\<close>
  (\<open>loadProcesses\<close>, lines 423 to 428).
\<close>

definition mkProcess :: "int64 \<Rightarrow> int64 \<Rightarrow> int64 \<Rightarrow> int64 \<Rightarrow> Process" where
  "mkProcess pid burst arrival prio =
     \<lparr>ProcessID = pid, ArrivalTime = arrival, BurstDuration = burst, Priority = prio\<rparr>"

text \<open>The three processes of the scenario that the specification works through.\<close>

definition scenario :: "Process list" where
  "scenario = [mkProcess 1 5 0 1, mkProcess 2 3 2 2, mkProcess 3 1 4 3]"

text \<open>
  The waiting times as the specification describes them for the first two policies:
  recomputed as service time minus arrival time for a process that arrives after time
  0, carried over from the process before (0 for the first) otherwise.
\<close>

fun latched_waits :: "int64 \<Rightarrow> int64 \<Rightarrow> Process list \<Rightarrow> int64 list" where
  "latched_waits service previous [] = []"
| "latched_waits service previous (p # ps) =
     (let w = (if 0 <s ArrivalTime p then service - ArrivalTime p else previous)
      in w # latched_waits (service + BurstDuration p) w ps)"

text \<open>
  The loop over the indices, as a recursion over the processes still to serve; the row
  that \<open>account\<close> writes, read back from a table of one slot; and the rows of a whole
  run.
\<close>

fun serve_from :: "nat \<Rightarrow> sched_state \<Rightarrow> Process list \<Rightarrow> sched_state" where
  "serve_from i st [] = st"
| "serve_from i st (p # ps) = serve_from (Suc i) (account p i st) ps"

definition written_row :: "Process \<Rightarrow> sched_state \<Rightarrow> Row" where
  "written_row p st = the (schedule (account p 0 (st\<lparr>schedule := [None]\<rparr>)) ! 0)"

fun serve_rows :: "sched_state \<Rightarrow> Process list \<Rightarrow> Row list" where
  "serve_rows st [] = []"
| "serve_rows st (p # ps) = written_row p st # serve_rows (account p 0 st) ps"

text \<open>
  A second sorter that meets the contract of \<open>sort.Slice\<close> and is not stable: one pass
  that swaps the elements six places apart that are out of order, followed by the
  insertion sort (what the releases of Go before 1.19 do with a slice of seven to twelve
  elements).
\<close>

definition gap_pass :: "(Process \<Rightarrow> Process \<Rightarrow> bool) \<Rightarrow> Process list \<Rightarrow> Process list" where
  "gap_pass lt xs =
     foldl (\<lambda>ys i. if lt (ys ! i) (ys ! (i - 6)) then ys[i := ys ! (i - 6), i - 6 := ys ! i] else ys)
       xs [6..<length xs]"

definition gap_insertion_sort :: sorter where
  "gap_insertion_sort lt xs = insertion_sort lt (gap_pass lt xs)"

text \<open>Seven processes, two of them (2 and 7) with the same burst.\<close>

definition tied :: "Process list" where
  "tied = [mkProcess 1 5 0 0, mkProcess 2 3 0 0, mkProcess 3 1 0 0, mkProcess 4 1 0 0,
           mkProcess 5 1 0 0, mkProcess 6 1 0 0, mkProcess 7 3 0 0]"

section \<open>Auxiliary definitions for the priority policy\<close>



text \<open>
  The states of the outer loop: the state after the sort, and every state one iteration
  after a state where a process is still pending.
\<close>

inductive prio_reach :: "Process list \<Rightarrow> prio_state \<Rightarrow> bool" for ps0 where
  start: "prio_reach ps0 (ps0, 0, init_state (length ps0))"
| step: "prio_reach ps0 s \<Longrightarrow> prio_pending s \<Longrightarrow> prio_reach ps0 (prio_step s)"





section \<open>Auxiliary definitions for round robin\<close>

text \<open>The time that one slice takes, and the state in which \<open>RRSchedule\<close> enters its loop.\<close>

definition slice_spent :: "int64 \<Rightarrow> int64 \<Rightarrow> int64" where
  "slice_spent q b = (if b \<le>s q then b else q)"

definition rr_init :: "Process list \<Rightarrow> rr_state" where
  "rr_init ps =
     \<lparr>currentTime = 0, rr_totalWait = 0, rr_totalTurnaround = 0, queue = [],
      rr_schedule = replicate (length ps) None, rr_gantt = [], remaining = ps\<rparr>"

text \<open>
  The state \<open>s1\<close> in which the inner loop leaves a dispatch from \<open>s\<close> of the process \<open>p\<close>,
  where the admission at the start of the iteration gives the queue \<open>p # queue2\<close>.
\<close>

definition dispatched ::
    "rr_state \<Rightarrow> Process \<Rightarrow> Process list \<Rightarrow> Process list \<Rightarrow> rr_state \<Rightarrow> bool" where
  "dispatched s p queue2 remaining1 s1 \<longleftrightarrow>
     admit (currentTime s) (queue s) (remaining s) = (p # queue2, remaining1) \<and>
     currentTime s1 =
       (if 0 <s BurstDuration p then currentTime s + BurstDuration p else currentTime s) \<and>
     rr_schedule s1 = rr_schedule s \<and>
     queue s1 @ remaining s1 = queue2 @ remaining1 \<and>
     (0 <s BurstDuration p \<longrightarrow> rr_gantt s1 \<noteq> []) \<and>
     (0 <s BurstDuration p \<and> 0 \<le> sint (currentTime s) \<and>
      sint (currentTime s) + sint (BurstDuration p) < 2 ^ 63 \<longrightarrow>
        (\<forall>x\<in>set (queue s1). x \<in> set queue2 \<or>
           sint (ArrivalTime x) \<le> sint (currentTime s) + sint (BurstDuration p))) \<and>
     (\<not> 0 <s BurstDuration p \<longrightarrow> queue s1 = queue2)"

text \<open>
  The ids of a list are dense when they are distinct and lie between 1 and the length
  of the list (so that they are exactly \<open>1..N\<close>); the row of a process is in place when
  the slot \<open>ProcessID - 1\<close> of the table holds a row with its id.
\<close>

definition dense_ids :: "Process list \<Rightarrow> bool" where
  "dense_ids ps \<longleftrightarrow>
     distinct (map ProcessID ps) \<and>
     (\<forall>p\<in>set ps. 1 \<le> sint (ProcessID p) \<and> sint (ProcessID p) \<le> int (length ps))"

definition row_at :: "Row option list \<Rightarrow> Process \<Rightarrow> bool" where
  "row_at table p \<longleftrightarrow>
     (case table ! nat (sint (ProcessID p) - 1) of
        None \<Rightarrow> False
      | Some row \<Rightarrow> RowID row = ProcessID p)"

text \<open>The two invariants of the outer loop of \<open>RRSchedule\<close> used below.\<close>

definition rows_inv :: "Process list \<Rightarrow> rr_state \<Rightarrow> bool" where
  "rows_inv ps0 s \<longleftrightarrow>
     length (rr_schedule s) = length ps0 \<and>
     set (queue s @ remaining s) \<subseteq> set ps0 \<and>
     (\<forall>p\<in>set ps0. p \<in> set (queue s @ remaining s) \<or> row_at (rr_schedule s) p)"


section \<open>The insertion sort meets the contract of the sort\<close>

text \<open>
  The hypotheses on the sorter in the theorems below can be met for every list: the
  insertion sort returns a permutation that is sorted by the key.
\<close>

lemma mset_insert_left: "mset (insert_left lt x ys) = add_mset x (mset ys)"
  by (induction ys) simp_all

lemma set_insert_left: "set (insert_left lt x ys) = insert x (set ys)"
  by (induction ys) auto

lemma sorted_insert_left:
  fixes key :: "Process \<Rightarrow> int64"
  assumes "sorted_wrt (\<lambda>a b. \<not> key b <s key a) ys"
  shows "sorted_wrt (\<lambda>a b. \<not> key b <s key a) (insert_left (\<lambda>a b. key a <s key b) x ys)"
  using assms
  by (induction ys) (auto simp: set_insert_left word_sless_alt)

lemma insertion_sort_post:
  fixes key :: "Process \<Rightarrow> int64"
  shows "sort_Slice_post (\<lambda>a b. key a <s key b) xs (insertion_sort (\<lambda>a b. key a <s key b) xs)"
proof -
  let ?lt = "\<lambda>a b. key a <s key b"
  have "mset (foldl (\<lambda>acc x. insert_left ?lt x acc) acc xs) = mset acc + mset xs \<and>
      (sorted_wrt (\<lambda>a b. \<not> ?lt b a) acc \<longrightarrow>
       sorted_wrt (\<lambda>a b. \<not> ?lt b a) (foldl (\<lambda>acc x. insert_left ?lt x acc) acc xs))" for acc
    by (induction xs arbitrary: acc) (simp_all add: mset_insert_left sorted_insert_left)
  from this [of "[]"] show ?thesis by (simp add: sort_Slice_post_def insertion_sort_def)
qed

lemma insertion_sort_meets_contract:
  "sort_Slice_post burst_less xs (insertion_sort burst_less xs)"
  "sort_Slice_post arrival_less xs (insertion_sort arrival_less xs)"
proof -
  have "burst_less = (\<lambda>a b. BurstDuration a <s BurstDuration b)"
    "arrival_less = (\<lambda>a b. ArrivalTime a <s ArrivalTime b)"
    by (auto simp: burst_less_def arrival_less_def fun_eq_iff)
  then show "sort_Slice_post burst_less xs (insertion_sort burst_less xs)"
    "sort_Slice_post arrival_less xs (insertion_sort arrival_less xs)"
    using insertion_sort_post [of BurstDuration xs] insertion_sort_post [of ArrivalTime xs]
    by simp_all
qed

section \<open>The loop of the first two policies\<close>

lemma foldl_serve_from:
  "k \<le> length ps \<Longrightarrow>
   foldl (\<lambda>st i. account (ps ! i) i st) st [k..<length ps] = serve_from k st (drop k ps)"
proof (induction "length ps - k" arbitrary: k st)
  case 0
  then show ?case by simp
next
  case (Suc d)
  then have lt: "k < length ps" by simp
  have "d = length ps - Suc k" using Suc.hyps(2) by simp
  from Suc.hyps(1) [OF this, of "account (ps ! k) k st"] lt
  show ?case by (simp add: upt_conv_Cons Cons_nth_drop_Suc [symmetric])
qed

lemma serve_in_order_eq: "serve_in_order ps = serve_from 0 (init_state (length ps)) ps"
  using foldl_serve_from [of 0 ps] by (simp add: serve_in_order_def)

lemma account_schedule:
  "schedule (account p i st) = (schedule st)[i := Some (written_row p st)]"
  by (simp add: account_def written_row_def Let_def)

lemma account_other:
  "serviceTime (account p i st) = serviceTime st + BurstDuration p"
  "waitingTime (account p i st) =
     (if 0 <s ArrivalTime p then serviceTime st - ArrivalTime p else waitingTime st)"
  "gantt (account p i st) = gantt st @
     [\<lparr>PID = ProcessID p,
       Start = (if 0 <s ArrivalTime p then serviceTime st - ArrivalTime p else waitingTime st) + ArrivalTime p,
       Stop = serviceTime st + BurstDuration p\<rparr>]"
  by (simp_all add: account_def Let_def)

lemma written_row_fields:
  "RowID (written_row p st) = ProcessID p"
  "RowPriority (written_row p st) = Priority p"
  "RowBurst (written_row p st) = BurstDuration p"
  "RowArrival (written_row p st) = ArrivalTime p"
  "RowWait (written_row p st) =
     (if 0 <s ArrivalTime p then serviceTime st - ArrivalTime p else waitingTime st)"
  "RowTurnaround (written_row p st) = BurstDuration p + RowWait (written_row p st)"
  "RowExit (written_row p st) = BurstDuration p + ArrivalTime p + RowWait (written_row p st)"
  by (simp_all add: account_def written_row_def Let_def)

lemma written_row_cong:
  "serviceTime st = serviceTime st' \<Longrightarrow> waitingTime st = waitingTime st' \<Longrightarrow>
   written_row p st = written_row p st'"
  by (simp add: account_def written_row_def Let_def)

lemma serve_rows_cong:
  "serviceTime st = serviceTime st' \<Longrightarrow> waitingTime st = waitingTime st' \<Longrightarrow>
   serve_rows st ps = serve_rows st' ps"
proof (induction ps arbitrary: st st')
  case Nil
  then show ?case by simp
next
  case (Cons p ps)
  have "serve_rows (account p 0 st) ps = serve_rows (account p 0 st') ps"
    by (rule Cons.IH) (simp_all add: account_other Cons.prems)
  then show ?case by (simp add: written_row_cong [OF Cons.prems])
qed

lemma schedule_serve_from:
  "i + length ps \<le> length (schedule st) \<Longrightarrow>
   schedule (serve_from i st ps) =
     take i (schedule st) @ map Some (serve_rows st ps) @ drop (i + length ps) (schedule st)"
proof (induction ps arbitrary: i st)
  case Nil
  then show ?case by simp
next
  case (Cons p ps)
  let ?st = "account p i st"
  have i: "i < length (schedule st)" using Cons.prems by simp
  have rows: "serve_rows ?st ps = serve_rows (account p 0 st) ps"
    by (rule serve_rows_cong) (simp_all add: account_other)
  have "schedule (serve_from (Suc i) ?st ps) =
      take (Suc i) (schedule ?st) @ map Some (serve_rows ?st ps) @
      drop (Suc i + length ps) (schedule ?st)"
    by (rule Cons.IH) (use Cons.prems in \<open>simp add: account_schedule\<close>)
  moreover have "take (Suc i) (schedule ?st) = take i (schedule st) @ [Some (written_row p st)]"
    using i by (simp add: account_schedule take_Suc_conv_app_nth)
  moreover have "drop (Suc i + length ps) (schedule ?st) = drop (Suc i + length ps) (schedule st)"
    by (simp add: account_schedule)
  ultimately show ?case by (simp add: rows)
qed

lemma schedule_serve_in_order:
  "schedule (serve_in_order ps) = map Some (serve_rows (init_state (length ps)) ps)"
  using schedule_serve_from [of 0 ps "init_state (length ps)"]
  by (simp add: serve_in_order_eq init_state_def)

lemma serve_rows_waits:
  "map RowWait (serve_rows st ps) = latched_waits (serviceTime st) (waitingTime st) ps"
  by (induction ps arbitrary: st) (simp_all add: written_row_fields account_other Let_def)

lemma serve_rows_bursts: "map RowBurst (serve_rows st ps) = map BurstDuration ps"
  by (induction ps arbitrary: st) (simp_all add: written_row_fields)

lemma serve_rows_ids: "map RowID (serve_rows st ps) = map ProcessID ps"
  by (induction ps arbitrary: st) (simp_all add: written_row_fields)

lemma gantt_serve_from_pids:
  "map PID (gantt (serve_from i st ps)) = map PID (gantt st) @ map ProcessID ps"
  by (induction ps arbitrary: i st) (simp_all add: account_other)

section \<open>Properties decided by running the policies\<close>

text \<open>
  C1. Claim: in \<open>RRSchedule\<close> with quantum \<open>q\<close>, a dispatched process whose remaining
  burst exceeds \<open>q\<close> runs for \<open>q\<close> time units, is preempted and goes to the back of
  the ready queue; no interval is longer than \<open>q\<close>. The code does not do this: the
  inner loop keeps the dispatched process on the CPU until its burst is used up, and
  every slice is recorded from the time of the dispatch. With two processes of burst 2
  that arrive at time 0 and quantum 1, process 1 gets both its slices before process 2
  runs, and the second interval of each process is 2 units long.
\<close>

theorem C1_rr_runs_to_completion:
  "map_option (map_sum id (out_gantt \<circ> fst))
     (RRSchedule insertion_sort [mkProcess 1 2 0 0, mkProcess 2 2 0 0] 1) =
   Some (Inr [\<lparr>PID = 1, Start = 0, Stop = 1\<rparr>, \<lparr>PID = 1, Start = 0, Stop = 2\<rparr>,
              \<lparr>PID = 2, Start = 2, Stop = 3\<rparr>, \<lparr>PID = 2, Start = 2, Stop = 4\<rparr>])"
  by code_simp

text \<open>
  C2. Claim: every result row of every policy has turnaround = waiting + burst and
  completion = arrival + waiting + burst. \<open>RRSchedule\<close> adds the elapsed time, which is
  the burst, once more to the turnaround: a process of burst 3 that never waits gets
  turnaround 6. The rows of the three other policies satisfy both identities (lemma
  \<open>first_three_policies_identities\<close> below).
\<close>

theorem C2_rr_turnaround_counts_burst_twice:
  "map_option (map_sum id (out_schedule \<circ> fst))
     (RRSchedule insertion_sort [mkProcess 1 3 0 0] 1) =
   Some (Inr [Some \<lparr>RowID = 1, RowPriority = 0, RowBurst = 3, RowArrival = 0,
                    RowWait = 0, RowTurnaround = 6, RowExit = 3\<rparr>])"
  by code_simp

text \<open>
  C3. Claim: the intervals of every policy do not overlap, start in non-decreasing
  order and sum up, for each process, to its burst. \<open>RRSchedule\<close> records every slice
  of a dispatch from the time of the dispatch: a single process of burst 3 gets the
  intervals from 0 to 1, from 0 to 2 and from 0 to 3, which overlap and sum up to 6.
  With two processes that both arrive at time 0, \<open>FCFSSchedule\<close> starts the second one
  at time 0 as well: its interval overlaps the first and is 8 units long for a burst
  of 3.
\<close>

theorem C3_intervals_overlap:
  "map_option (map_sum id (out_gantt \<circ> fst))
     (RRSchedule insertion_sort [mkProcess 1 3 0 0] 1) =
     Some (Inr [\<lparr>PID = 1, Start = 0, Stop = 1\<rparr>, \<lparr>PID = 1, Start = 0, Stop = 2\<rparr>,
                \<lparr>PID = 1, Start = 0, Stop = 3\<rparr>]) \<and>
   out_gantt (FCFSSchedule [mkProcess 1 5 0 0, mkProcess 2 3 0 0]) =
     [\<lparr>PID = 1, Start = 0, Stop = 5\<rparr>, \<lparr>PID = 2, Start = 0, Stop = 8\<rparr>]"
  by code_simp

text \<open>
  C8. Claim: every policy works on its own copy of the loaded list, so that its output
  does not depend on the policies run before it. In \<open>main\<close> the four policies share one
  array. On the scenario of the specification, \<open>SJFSchedule\<close> leaves the array sorted by
  burst, \<open>SJFPrioritySchedule\<close> then leaves it with process 2 twice and process 3 gone,
  and \<open>RRSchedule\<close> reports on that array: no row for process 3, where a run on the
  loaded list has one.
\<close>

theorem C8_policies_share_the_array:
  "snd (SJFSchedule insertion_sort scenario) =
     [mkProcess 3 1 4 3, mkProcess 2 3 2 2, mkProcess 1 5 0 1] \<and>
   snd (SJFPrioritySchedule insertion_sort (snd (SJFSchedule insertion_sort scenario))) =
     [mkProcess 1 5 0 1, mkProcess 2 3 2 2, mkProcess 2 3 2 2] \<and>
   map_option (map_sum id (map (map_option RowID) \<circ> out_schedule))
     (run_RR (main_runs insertion_sort scenario)) = Some (Inr [Some 1, Some 2, None]) \<and>
   map_option (map_sum id (map (map_option RowID) \<circ> out_schedule \<circ> fst))
     (RRSchedule insertion_sort scenario 1) = Some (Inr [Some 1, Some 2, Some 3])"
  by code_simp

section \<open>Empty input\<close>

text \<open>
  C6. Claim: on the empty list all four policies complete without crashing, with zero
  averages and throughput. As stated this fails: \<open>RRSchedule\<close> reads the last element of
  an empty Gantt chart and panics, and the statistics of \<open>FCFSSchedule\<close> are \<open>0 / 0\<close>.
\<close>

theorem C6_empty_input_counterexample:
  "RRSchedule insertion_sort [] 1 = Some (Inl (IndexOutOfRange GanttLast (- 1) 0)) \<and>
   aveWait (FCFSSchedule []) = NaN"
  by code_simp

text \<open>
  C6, amended: on the empty list \<open>FCFSSchedule\<close>, \<open>SJFSchedule\<close> and
  \<open>SJFPrioritySchedule\<close> complete with an empty table and an empty Gantt chart, and
  their three statistics are the result of dividing zero by zero.
\<close>

theorem C6_empty_input:
  assumes "sort_Slice_post burst_less [] (srt burst_less [])"
    and "sort_Slice_post arrival_less [] (srt arrival_less [])"
  shows "FCFSSchedule [] =
      \<lparr>out_gantt = [], out_schedule = [], aveWait = NaN, aveTurnaround = NaN,
       aveThroughput = NaN\<rparr> \<and>
    fst (SJFSchedule srt []) = FCFSSchedule [] \<and>
    fst (SJFPrioritySchedule srt []) = FCFSSchedule []"
proof -
  from assms have nil: "srt burst_less [] = []" "srt arrival_less [] = []"
    by (simp_all add: sort_Slice_post_def)
  have loop: "SJFPriority_loop ([], 0, init_state 0) = ([], 0, init_state 0)"
    by (subst SJFPriority_loop.simps) (simp add: prio_pending_def)
  have "FCFSSchedule [] =
      \<lparr>out_gantt = [], out_schedule = [], aveWait = NaN, aveTurnaround = NaN,
       aveThroughput = NaN\<rparr>"
    by (simp add: FCFSSchedule_def serve_in_order_def report_def init_state_def fdiv_def)
  moreover have "fst (SJFSchedule srt []) = FCFSSchedule []"
    by (simp add: SJFSchedule_def FCFSSchedule_def nil)
  moreover have "fst (SJFPrioritySchedule srt []) = FCFSSchedule []"
    by (simp add: SJFPrioritySchedule_def FCFSSchedule_def nil loop serve_in_order_def)
  ultimately show ?thesis by simp
qed

theorem C6_empty_input_witness:
  "sort_Slice_post burst_less [] (insertion_sort burst_less []) \<and>
   sort_Slice_post arrival_less [] (insertion_sort arrival_less []) \<and>
   fst (SJFPrioritySchedule insertion_sort []) =
      \<lparr>out_gantt = [], out_schedule = [], aveWait = NaN, aveTurnaround = NaN,
       aveThroughput = NaN\<rparr>"
proof -
  have b: "sort_Slice_post burst_less [] (insertion_sort burst_less [])"
    by (simp add: sort_Slice_post_def insertion_sort_def)
  have a: "sort_Slice_post arrival_less [] (insertion_sort arrival_less [])"
    by (simp add: sort_Slice_post_def insertion_sort_def)
  show ?thesis using C6_empty_input [of insertion_sort, OF b a] a b by simp
qed

section \<open>Latched waiting time\<close>

text \<open>
  C4. In \<open>FCFSSchedule\<close> and \<open>SJFSchedule\<close> the waiting time is recomputed as service
  time minus arrival time only for a process whose arrival time is greater than 0; a
  process that arrives at time 0 gets the waiting time of the process served before it
  (0 if it is the first). The waiting times in the table are those of \<open>latched_waits\<close>,
  on the list as given for \<open>FCFSSchedule\<close> and on the sorted list for \<open>SJFSchedule\<close>.
\<close>

theorem C4_latched_waiting_time:
  "map (map_option RowWait) (out_schedule (FCFSSchedule processes)) =
     map Some (latched_waits 0 0 processes) \<and>
   map (map_option RowWait) (out_schedule (fst (SJFSchedule srt processes))) =
     map Some (latched_waits 0 0 (srt burst_less processes))"
proof -
  have "map (map_option RowWait) (schedule (serve_in_order ps)) =
      map Some (latched_waits 0 0 ps)" for ps
    using serve_rows_waits [of "init_state (length ps)" ps, symmetric]
    by (simp add: schedule_serve_in_order init_state_def comp_def)
  then show ?thesis
    by (simp add: FCFSSchedule_def SJFSchedule_def report_def Let_def)
qed

section \<open>The scan of the priority policy\<close>

lemma sint_sub_no_overflow:
  fixes a t :: int64
  assumes "0 \<le> sint a" "sint a \<le> sint t"
  shows "sint (t - a) = sint t - sint a"
proof -
  have "sint t < 2 ^ 63" using sint_lt [of t] by simp
  with assms have "- (2 ^ 63) \<le> sint t - sint a" "sint t - sint a < 2 ^ 63" by simp_all
  then show ?thesis by (simp add: sint_word_ariths signed_take_bit_int_eq_self)
qed

lemma sint_add_no_overflow:
  fixes a b :: int64
  assumes "0 \<le> sint a" "0 \<le> sint b" "sint a + sint b < 2 ^ 63"
  shows "sint (a + b) = sint a + sint b"
proof -
  from assms have "- (2 ^ 63) \<le> sint a + sint b" by simp
  with assms show ?thesis by (simp add: sint_word_ariths signed_take_bit_int_eq_self)
qed







section \<open>The invariant of the priority policy\<close>

lemma prio_reach_loop: "prio_reach ps0 s \<Longrightarrow> prio_reach ps0 (SJFPriority_loop s)"
proof (induction s rule: SJFPriority_loop.induct)
  case (1 s)
  then show ?case
    by (subst SJFPriority_loop.simps) (simp add: prio_reach.step)
qed

lemma loop_not_pending: "\<not> prio_pending (SJFPriority_loop s)"
proof (induction s rule: SJFPriority_loop.induct)
  case (1 s)
  then show ?case by (subst SJFPriority_loop.simps) simp
qed















section \<open>The loops of round robin\<close>

lemma admit_append: "admit t q r = (q', r') \<Longrightarrow> q' @ r' = q @ r"
  by (induction r arbitrary: q) (auto split: if_splits)

lemma admit_arrived:
  "admit t q r = (q', r') \<Longrightarrow> x \<in> set q' \<Longrightarrow> x \<in> set q \<or> ArrivalTime x \<le>s t"
proof (induction r arbitrary: q)
  case Nil
  then show ?case by simp
next
  case (Cons a r)
  show ?case
  proof (cases "ArrivalTime a \<le>s t")
    case True
    with Cons.prems have "admit t (q @ [a]) r = (q', r')" by simp
    from Cons.IH [OF this Cons.prems(2)] True show ?thesis by auto
  next
    case False
    with Cons.prems show ?thesis by simp
  qed
qed

lemma slice_spent_bounds:
  "0 <s q \<Longrightarrow> 0 <s b \<Longrightarrow> 0 < sint (slice_spent q b) \<and> sint (slice_spent q b) \<le> sint b"
  by (auto simp: slice_spent_def word_sle_eq word_sless_alt)

lemma one_slice_fields:
  assumes "one_slice q p start (s, c, b, e) = (s1, c1, b1, e1)"
  shows "currentTime s1 = currentTime s + slice_spent q b"
    and "c1 = currentTime s1" and "b1 = b - slice_spent q b" and "e1 = e + slice_spent q b"
    and "rr_schedule s1 = rr_schedule s" and "rr_totalWait s1 = rr_totalWait s"
    and "rr_totalTurnaround s1 = rr_totalTurnaround s"
    and "queue s1 @ remaining s1 = queue s @ remaining s"
    and "rr_gantt s1 = rr_gantt s @
           [\<lparr>PID = ProcessID p, Start = start, Stop = currentTime s + slice_spent q b\<rparr>]"
    and "\<And>x. x \<in> set (queue s1) \<Longrightarrow>
           x \<in> set (queue s) \<or> ArrivalTime x \<le>s currentTime s + slice_spent q b"
  using assms
  by (auto simp: one_slice_def slice_spent_def Let_def split: prod.splits
           dest: admit_append admit_arrived)

lemma run_slices_idle:
  "\<not> 0 <s b \<Longrightarrow> run_slices q p start (s, c, b, e) = Some (s, c, b, e)"
  by (subst run_slices.simps) simp

lemma run_slices_total:
  assumes q: "0 <s q"
  shows "0 <s b \<Longrightarrow>
    \<exists>s'. run_slices q p start (s, c, b, e) = Some (s', currentTime s', 0, e + b) \<and>
      currentTime s' = currentTime s + b \<and>
      rr_schedule s' = rr_schedule s \<and> rr_totalWait s' = rr_totalWait s \<and>
      rr_totalTurnaround s' = rr_totalTurnaround s \<and>
      queue s' @ remaining s' = queue s @ remaining s \<and>
      (\<exists>sl. rr_gantt s' = rr_gantt s @ sl \<and> sl \<noteq> []) \<and>
      (0 \<le> sint (currentTime s) \<and> sint (currentTime s) + sint b < 2 ^ 63 \<longrightarrow>
         (\<forall>x\<in>set (queue s'). x \<in> set (queue s) \<or>
            sint (ArrivalTime x) \<le> sint (currentTime s) + sint b))"
proof (induction "nat (sint b)" arbitrary: s c b e rule: less_induct)
  case less
  let ?sp = "slice_spent q b"
  from slice_spent_bounds [OF q less.prems] have sp: "0 < sint ?sp" "sint ?sp \<le> sint b"
    by simp_all
  obtain s1 c1 b1 e1 where one: "one_slice q p start (s, c, b, e) = (s1, c1, b1, e1)"
    by (metis prod_cases4)
  note f = one_slice_fields [OF one]
  have unfold: "run_slices q p start (s, c, b, e) = run_slices q p start (s1, c1, b1, e1)"
    using less.prems by (subst run_slices.simps) (simp add: one)
  have sb1: "sint b1 = sint b - sint ?sp"
    using sp by (simp add: f(3) sint_sub_no_overflow)
  have arrived1: "x \<in> set (queue s) \<or> sint (ArrivalTime x) \<le> sint (currentTime s) + sint ?sp"
    if "x \<in> set (queue s1)" "0 \<le> sint (currentTime s)" "sint (currentTime s) + sint b < 2 ^ 63"
    for x
  proof -
    have "sint (currentTime s + ?sp) = sint (currentTime s) + sint ?sp"
      using that sp by (intro sint_add_no_overflow) simp_all
    with f(10) [OF that(1)] show ?thesis by (auto simp: word_sle_eq)
  qed
  show ?case
  proof (cases "0 <s b1")
    case False
    with sb1 sp have "sint b1 = 0" by (simp add: word_sless_alt)
    then have b1: "b1 = 0" by (simp add: signed_eq_0_iff)
    then have eq: "?sp = b" using f(3) by simp
    have "run_slices q p start (s, c, b, e) = Some (s1, c1, b1, e1)"
      using unfold run_slices_idle [OF False] by simp
    then show ?thesis
      using f arrived1 b1 eq by auto
  next
    case True
    have "nat (sint b1) < nat (sint b)" using sb1 sp True by (simp add: word_sless_alt)
    from less.hyps [OF this True, of s1 c1 e1]
    obtain s' where s': "run_slices q p start (s1, c1, b1, e1) = Some (s', currentTime s', 0, e1 + b1)"
      "currentTime s' = currentTime s1 + b1"
      "rr_schedule s' = rr_schedule s1" "rr_totalWait s' = rr_totalWait s1"
      "rr_totalTurnaround s' = rr_totalTurnaround s1"
      "queue s' @ remaining s' = queue s1 @ remaining s1"
      "\<exists>sl. rr_gantt s' = rr_gantt s1 @ sl \<and> sl \<noteq> []"
      "0 \<le> sint (currentTime s1) \<and> sint (currentTime s1) + sint b1 < 2 ^ 63 \<longrightarrow>
         (\<forall>x\<in>set (queue s'). x \<in> set (queue s1) \<or>
            sint (ArrivalTime x) \<le> sint (currentTime s1) + sint b1)"
      by blast
    have sum: "e1 + b1 = e + b" "currentTime s1 + b1 = currentTime s + b"
      by (simp_all add: f)
    have arrived: "\<forall>x\<in>set (queue s'). x \<in> set (queue s) \<or>
            sint (ArrivalTime x) \<le> sint (currentTime s) + sint b"
      if pre: "0 \<le> sint (currentTime s)" "sint (currentTime s) + sint b < 2 ^ 63"
    proof
      fix x assume x: "x \<in> set (queue s')"
      have t1: "sint (currentTime s1) = sint (currentTime s) + sint ?sp"
        using pre sp by (simp add: f(1) sint_add_no_overflow)
      with s'(8) pre sp sb1 x
      have "x \<in> set (queue s1) \<or> sint (ArrivalTime x) \<le> sint (currentTime s) + sint b"
        by auto
      with arrived1 [OF _ pre] sp show "x \<in> set (queue s) \<or>
            sint (ArrivalTime x) \<le> sint (currentTime s) + sint b" by fastforce
    qed
    show ?thesis
      using unfold s' sum f(5-9) arrived by (intro exI [of _ s']) auto
  qed
qed

lemma run_slices_result:
  assumes q: "0 <s q"
  shows "\<exists>s' c' b' e'. run_slices q p start (s, c, b, e) = Some (s', c', b', e') \<and>
      currentTime s' = (if 0 <s b then currentTime s + b else currentTime s) \<and>
      rr_schedule s' = rr_schedule s \<and>
      queue s' @ remaining s' = queue s @ remaining s \<and>
      (0 <s b \<longrightarrow> rr_gantt s' \<noteq> []) \<and>
      (0 <s b \<and> 0 \<le> sint (currentTime s) \<and> sint (currentTime s) + sint b < 2 ^ 63 \<longrightarrow>
         (\<forall>x\<in>set (queue s'). x \<in> set (queue s) \<or>
            sint (ArrivalTime x) \<le> sint (currentTime s) + sint b)) \<and>
      (\<not> 0 <s b \<longrightarrow> queue s' = queue s)"
proof (cases "0 <s b")
  case True
  from run_slices_total [OF q True, of p start s c e] obtain s' where
    "run_slices q p start (s, c, b, e) = Some (s', currentTime s', 0, e + b)"
    "currentTime s' = currentTime s + b" "rr_schedule s' = rr_schedule s"
    "queue s' @ remaining s' = queue s @ remaining s"
    "\<exists>sl. rr_gantt s' = rr_gantt s @ sl \<and> sl \<noteq> []"
    "0 \<le> sint (currentTime s) \<and> sint (currentTime s) + sint b < 2 ^ 63 \<longrightarrow>
         (\<forall>x\<in>set (queue s'). x \<in> set (queue s) \<or>
            sint (ArrivalTime x) \<le> sint (currentTime s) + sint b)"
    by blast
  with True show ?thesis by auto
next
  case False
  then show ?thesis by (simp add: run_slices_idle)
qed

lemma dispatch_empty:
  "admit (currentTime s) (queue s) (remaining s) = ([], remaining1) \<Longrightarrow>
   dispatch q s =
     Some (Inl (IndexOutOfRange (if remaining1 = [] then ProcessesHead else QueueHead) 0 0))"
  by (simp add: dispatch_def split: list.splits)

lemma dispatch_head:
  "admit (currentTime s) (queue s) (remaining s) = (p # queue2, remaining1) \<Longrightarrow>
   dispatch q s =
     (case run_slices q p (currentTime s)
             (s\<lparr>currentTime := currentTime s, queue := queue2, remaining := remaining1\<rparr>,
              0, BurstDuration p, 0) of
        None \<Rightarrow> None
      | Some r \<Rightarrow> Some (store_row p r))"
  by (simp add: dispatch_def)

lemma dispatch_unfold:
  assumes q: "0 <s q"
  shows "(\<exists>remaining1. admit (currentTime s) (queue s) (remaining s) = ([], remaining1) \<and>
            dispatch q s =
              Some (Inl (IndexOutOfRange
                (if remaining1 = [] then ProcessesHead else QueueHead) 0 0))) \<or>
         (\<exists>p queue2 remaining1 s1 c b e. dispatched s p queue2 remaining1 s1 \<and>
            dispatch q s = Some (store_row p (s1, c, b, e)))"
proof -
  obtain queue1 remaining1 where adm:
    "admit (currentTime s) (queue s) (remaining s) = (queue1, remaining1)"
    by (metis surj_pair)
  show ?thesis
  proof (cases queue1)
    case Nil
    with adm dispatch_empty show ?thesis by blast
  next
    case (Cons p queue2)
    let ?s0 = "s\<lparr>currentTime := currentTime s, queue := queue2, remaining := remaining1\<rparr>"
    from run_slices_result [OF q, of p "currentTime s" ?s0 0 "BurstDuration p" 0]
    obtain s1 c b e where run:
      "run_slices q p (currentTime s) (?s0, 0, BurstDuration p, 0) = Some (s1, c, b, e)"
      and f: "currentTime s1 =
        (if 0 <s BurstDuration p then currentTime ?s0 + BurstDuration p else currentTime ?s0)"
      "rr_schedule s1 = rr_schedule ?s0"
      "queue s1 @ remaining s1 = queue ?s0 @ remaining ?s0"
      "0 <s BurstDuration p \<longrightarrow> rr_gantt s1 \<noteq> []"
      "0 <s BurstDuration p \<and> 0 \<le> sint (currentTime ?s0) \<and>
       sint (currentTime ?s0) + sint (BurstDuration p) < 2 ^ 63 \<longrightarrow>
         (\<forall>x\<in>set (queue s1). x \<in> set (queue ?s0) \<or>
            sint (ArrivalTime x) \<le> sint (currentTime ?s0) + sint (BurstDuration p))"
      "\<not> 0 <s BurstDuration p \<longrightarrow> queue s1 = queue ?s0"
      by blast
    have "dispatched s p queue2 remaining1 s1"
      unfolding dispatched_def using adm Cons f by simp
    moreover have "dispatch q s = Some (store_row p (s1, c, b, e))"
      using dispatch_head [of s p queue2 remaining1 q] adm Cons run by simp
    ultimately show ?thesis by blast
  qed
qed

lemma store_row_Inr:
  assumes "store_row p (s1, c, b, e) = Inr s'"
  shows "0 \<le> sint (ProcessID p - 1)" "sint (ProcessID p - 1) < int (length (rr_schedule s1))"
    "currentTime s' = currentTime s1" "queue s' = queue s1" "remaining s' = remaining s1"
    "rr_gantt s' = rr_gantt s1"
    "\<exists>row. rr_schedule s' = (rr_schedule s1)[nat (sint (ProcessID p - 1)) := Some row] \<and>
        RowID row = ProcessID p \<and>
        RowWait row = currentTime s1 - ArrivalTime p - BurstDuration p"
  using assms by (auto simp: store_row_def Let_def split: if_splits)

lemma store_row_Inl:
  assumes "store_row p (s1, c, b, e) = Inl err"
  shows "err = IndexOutOfRange ScheduleRow (sint (ProcessID p - 1)) (length (rr_schedule s1))"
    "\<not> (0 \<le> sint (ProcessID p - 1) \<and> sint (ProcessID p - 1) < int (length (rr_schedule s1)))"
  using assms by (auto simp: store_row_def Let_def split: if_splits)

lemma dispatched_pending:
  assumes "dispatched s p queue2 remaining1 s1"
  shows "queue s @ remaining s = p # queue s1 @ remaining s1"
    and "p \<in> set (queue s) \<or> ArrivalTime p \<le>s currentTime s"
    and "\<And>x. x \<in> set queue2 \<Longrightarrow> x \<in> set (queue s) \<or> ArrivalTime x \<le>s currentTime s"
proof -
  from assms have adm: "admit (currentTime s) (queue s) (remaining s) = (p # queue2, remaining1)"
    and app: "queue s1 @ remaining s1 = queue2 @ remaining1"
    by (simp_all add: dispatched_def)
  from admit_append [OF adm] app show "queue s @ remaining s = p # queue s1 @ remaining s1"
    by simp
  from admit_arrived [OF adm, of p] show "p \<in> set (queue s) \<or> ArrivalTime p \<le>s currentTime s"
    by simp
  fix x assume "x \<in> set queue2"
  with admit_arrived [OF adm, of x] show "x \<in> set (queue s) \<or> ArrivalTime x \<le>s currentTime s"
    by simp
qed

lemma RR_loop_rule:
  assumes q: "0 <s q" and inv: "I s"
    and step: "\<And>s s'. I s \<Longrightarrow> dispatch q s = Some (Inr s') \<Longrightarrow> I s'"
  shows "\<exists>r. RR_loop q s = Some r \<and>
    (case r of
       Inr s' \<Rightarrow> I s' \<and> queue s' = [] \<and> remaining s' = []
     | Inl err \<Rightarrow>
         \<exists>s0. I s0 \<and> (queue s0 \<noteq> [] \<or> remaining s0 \<noteq> []) \<and>
              dispatch q s0 = Some (Inl err))"
  using inv
proof (induction "length (queue s) + length (remaining s)" arbitrary: s rule: less_induct)
  case less
  show ?case
  proof (cases "queue s \<noteq> [] \<or> remaining s \<noteq> []")
    case False
    then have "RR_loop q s = Some (Inr s)" by (subst RR_loop.simps) simp
    with False less.prems show ?thesis by simp
  next
    case True
    from dispatch_unfold [OF q, of s] consider
        err where "dispatch q s = Some (Inl err)"
      | p queue2 remaining1 s1 c b e where "dispatched s p queue2 remaining1 s1"
          "dispatch q s = Some (store_row p (s1, c, b, e))"
      by blast
    then show ?thesis
    proof cases
      case 1
      then have "RR_loop q s = Some (Inl err)"
        using True by (subst RR_loop.simps) simp
      with 1 True less.prems show ?thesis by auto
    next
      case 2
      show ?thesis
      proof (cases "store_row p (s1, c, b, e)")
        case (Inl err)
        then have "RR_loop q s = Some (Inl err)"
          using True 2 by (subst RR_loop.simps) simp
        with 2 Inl True less.prems show ?thesis by auto
      next
        case (Inr s')
        have "length (queue s) + length (remaining s) =
            Suc (length (queue s1) + length (remaining s1))"
          using dispatched_pending(1) [OF 2(1)] by (metis length_append length_Cons)
        then have smaller: "length (queue s') + length (remaining s') <
            length (queue s) + length (remaining s)"
          using store_row_Inr(4,5) [OF Inr] by simp
        have "I s'" using step [OF less.prems] 2 Inr by simp
        from less.hyps [OF smaller this] obtain r where
          "RR_loop q s' = Some r"
          "case r of Inr s' \<Rightarrow> I s' \<and> queue s' = [] \<and> remaining s' = []
           | Inl err \<Rightarrow>
               \<exists>s0. I s0 \<and> (queue s0 \<noteq> [] \<or> remaining s0 \<noteq> []) \<and>
                    dispatch q s0 = Some (Inl err)"
          by blast
        moreover have "RR_loop q s = RR_loop q s'"
          using True 2 Inr by (subst RR_loop.simps) simp
        ultimately show ?thesis by simp
      qed
    qed
  qed
qed

lemma RRSchedule_unfold:
  "RRSchedule srt processes q =
     (case RR_loop q (rr_init (srt arrival_less processes)) of
        None \<Rightarrow> None
      | Some (Inl e) \<Rightarrow> Some (Inl e)
      | Some (Inr s) \<Rightarrow>
          (case rr_report s of Inl e \<Rightarrow> Some (Inl e)
           | Inr out \<Rightarrow> Some (Inr (out, srt arrival_less processes))))"
  by (simp add: RRSchedule_def rr_init_def Let_def)

lemma rr_report_cases:
  "rr_report s = Inl (IndexOutOfRange GanttLast (- 1) 0) \<or>
   (\<exists>out. rr_report s = Inr out \<and> out_schedule out = rr_schedule s \<and> out_gantt out = rr_gantt s)"
  by (simp add: rr_report_def Let_def)

lemma run_slices_frame:
  assumes "run_slices q p start r = Some r'"
  shows "rr_schedule (fst r') = rr_schedule (fst r) \<and>
    queue (fst r') @ remaining (fst r') = queue (fst r) @ remaining (fst r)"
proof (rule run_slices.raw_induct
    [where P = "\<lambda>q p start r r'. rr_schedule (fst r') = rr_schedule (fst r) \<and>
       queue (fst r') @ remaining (fst r') = queue (fst r) @ remaining (fst r)", OF _ assms])
  fix run :: "int64 \<Rightarrow> Process \<Rightarrow> int64 \<Rightarrow> run_state \<Rightarrow> run_state option"
  fix q p start r r'
  assume IH: "\<And>q p start r r'. run q p start r = Some r' \<Longrightarrow>
      rr_schedule (fst r') = rr_schedule (fst r) \<and>
      queue (fst r') @ remaining (fst r') = queue (fst r) @ remaining (fst r)"
    and eq: "(case r of (s, completion, burstLeft, timeElapsed) \<Rightarrow>
        if 0 <s burstLeft then run q p start (one_slice q p start r) else Some r) = Some r'"
  obtain s c b e where r: "r = (s, c, b, e)" by (metis prod_cases4)
  show "rr_schedule (fst r') = rr_schedule (fst r) \<and>
      queue (fst r') @ remaining (fst r') = queue (fst r) @ remaining (fst r)"
  proof (cases "0 <s b")
    case True
    obtain s1 c1 b1 e1 where one: "one_slice q p start (s, c, b, e) = (s1, c1, b1, e1)"
      by (metis prod_cases4)
    from eq True have "run q p start (s1, c1, b1, e1) = Some r'"
      by (simp add: r one)
    from IH [OF this] one_slice_fields(5,8) [OF one] show ?thesis
      by (simp add: r)
  next
    case False
    with eq show ?thesis by (simp add: r)
  qed
qed

lemma dispatch_frame:
  assumes "dispatch q s = Some d"
  shows "(\<exists>remaining1. admit (currentTime s) (queue s) (remaining s) = ([], remaining1) \<and>
            d = Inl (IndexOutOfRange (if remaining1 = [] then ProcessesHead else QueueHead) 0 0)) \<or>
         (\<exists>p s1 c b e. queue s @ remaining s = p # queue s1 @ remaining s1 \<and>
            rr_schedule s1 = rr_schedule s \<and> d = store_row p (s1, c, b, e))"
proof -
  obtain queue1 remaining1 where adm:
    "admit (currentTime s) (queue s) (remaining s) = (queue1, remaining1)"
    by (metis surj_pair)
  show ?thesis
  proof (cases queue1)
    case Nil
    with adm dispatch_empty [of s remaining1 q] assms show ?thesis by auto
  next
    case (Cons p queue2)
    let ?s0 = "s\<lparr>currentTime := currentTime s, queue := queue2, remaining := remaining1\<rparr>"
    from assms dispatch_head [of s p queue2 remaining1 q] adm Cons
    obtain r' where run: "run_slices q p (currentTime s) (?s0, 0, BurstDuration p, 0) = Some r'"
      and d: "d = store_row p r'"
      by (auto split: option.splits)
    obtain s1 c b e where r': "r' = (s1, c, b, e)" by (metis prod_cases4)
    from run_slices_frame [OF run] admit_append [OF adm] Cons
    have "queue s @ remaining s = p # queue s1 @ remaining s1" "rr_schedule s1 = rr_schedule s"
      by (simp_all add: r')
    with d r' show ?thesis by blast
  qed
qed

lemma RR_loop_partial:
  assumes run: "RR_loop q s = Some r" and inv: "I s"
    and step: "\<And>s s'. I s \<Longrightarrow> dispatch q s = Some (Inr s') \<Longrightarrow> I s'"
  shows "case r of
       Inr s' \<Rightarrow> I s' \<and> queue s' = [] \<and> remaining s' = []
     | Inl err \<Rightarrow>
         \<exists>s0. I s0 \<and> (queue s0 \<noteq> [] \<or> remaining s0 \<noteq> []) \<and>
              dispatch q s0 = Some (Inl err)"
proof -
  let ?post = "\<lambda>r. case r of
       Inr s' \<Rightarrow> I s' \<and> queue s' = [] \<and> remaining s' = []
     | Inl err \<Rightarrow>
         \<exists>s0. I s0 \<and> (queue s0 \<noteq> [] \<or> remaining s0 \<noteq> []) \<and>
              dispatch q s0 = Some (Inl err)"
  have "q = q \<longrightarrow> I s \<longrightarrow> ?post r"
  proof (rule RR_loop.raw_induct [where P = "\<lambda>q' s r. q' = q \<longrightarrow> I s \<longrightarrow> ?post r", OF _ run])
    fix loop :: "int64 \<Rightarrow> rr_state \<Rightarrow> (panic + rr_state) option"
    fix q' s r
    assume IH: "\<And>q' s r. loop q' s = Some r \<Longrightarrow> q' = q \<longrightarrow> I s \<longrightarrow> ?post r"
      and eq: "(if queue s \<noteq> [] \<or> remaining s \<noteq> [] then
                 (case dispatch q' s of None \<Rightarrow> None | Some (Inl e) \<Rightarrow> Some (Inl e)
                  | Some (Inr s') \<Rightarrow> loop q' s')
               else Some (Inr s)) = Some r"
    show "q' = q \<longrightarrow> I s \<longrightarrow> ?post r"
    proof (intro impI)
      assume q': "q' = q" and i: "I s"
      show "?post r"
      proof (cases "queue s \<noteq> [] \<or> remaining s \<noteq> []")
        case False
        with eq i show ?thesis by auto
      next
        case True
        with eq obtain d where d: "dispatch q s = Some d"
          by (auto simp: q' split: option.splits)
        show ?thesis
        proof (cases d)
          case (Inl err)
          with eq True d have "r = Inl err" by (simp add: q')
          with Inl d True i show ?thesis by auto
        next
          case (Inr s')
          with eq True d have "loop q s' = Some r" by (simp add: q')
          from IH [OF this] step [OF i] d Inr show ?thesis by simp
        qed
      qed
    qed
  qed
  with inv show ?thesis by simp
qed

lemma RR_loop_returns:
  assumes q: "0 <s q"
  shows "\<exists>r. RR_loop q s = Some r"
  using RR_loop_rule [of q "\<lambda>_. True" s, OF q] by auto


lemma RRSchedule_returns:
  assumes "0 <s q"
  shows "\<exists>r. RRSchedule srt processes q = Some r"
proof -
  from RR_loop_returns [OF assms] obtain r
    where "RR_loop q (rr_init (srt arrival_less processes)) = Some r" by blast
  then show ?thesis
    by (cases r) (auto simp: RRSchedule_unfold split: sum.splits)
qed


lemma dispatch_Inl:
  assumes d: "dispatch q s = Some (Inl err)"
    and pending: "queue s \<noteq> [] \<or> remaining s \<noteq> []"
  shows "err = IndexOutOfRange QueueHead 0 0 \<or>
    (\<exists>p\<in>set (queue s @ remaining s).
       err = IndexOutOfRange ScheduleRow (sint (ProcessID p - 1)) (length (rr_schedule s)) \<and>
       \<not> (0 \<le> sint (ProcessID p - 1) \<and> sint (ProcessID p - 1) < int (length (rr_schedule s))))"
proof -
  from dispatch_frame [OF d] consider remaining1 where
      "admit (currentTime s) (queue s) (remaining s) = ([], remaining1)"
      "err = IndexOutOfRange (if remaining1 = [] then ProcessesHead else QueueHead) 0 0"
    | p s1 c b e where "queue s @ remaining s = p # queue s1 @ remaining s1"
      "rr_schedule s1 = rr_schedule s" "store_row p (s1, c, b, e) = Inl err"
    by auto
  then show ?thesis
  proof cases
    case 1
    from admit_append [OF 1(1)] pending have "remaining1 \<noteq> []" by auto
    with 1(2) show ?thesis by simp
  next
    case 2
    have "p \<in> set (queue s @ remaining s)" using 2(1) by simp
    with store_row_Inl [OF 2(3)] 2(2) show ?thesis by auto
  qed
qed

lemma id_index:
  fixes i :: int64
  assumes "1 \<le> sint i"
  shows "sint (i - 1) = sint i - 1"
  using sint_sub_no_overflow [of 1 i] assms by simp

lemma rows_inv_step:
  assumes ids: "dense_ids ps0"
    and inv: "rows_inv ps0 s" and d: "dispatch q s = Some (Inr s')"
  shows "rows_inv ps0 s'"
proof -
  from dispatch_frame [OF d] obtain p s1 c b e where
    pend: "queue s @ remaining s = p # queue s1 @ remaining s1"
    and sch1: "rr_schedule s1 = rr_schedule s" and st: "store_row p (s1, c, b, e) = Inr s'"
    by auto
  from store_row_Inr [OF st] sch1 obtain row where
    idx: "0 \<le> sint (ProcessID p - 1)" "sint (ProcessID p - 1) < int (length (rr_schedule s))"
    and same: "queue s' = queue s1" "remaining s' = remaining s1"
    and row: "rr_schedule s' = (rr_schedule s)[nat (sint (ProcessID p - 1)) := Some row]"
      "RowID row = ProcessID p"
    by auto
  from inv have len: "length (rr_schedule s) = length ps0"
    and sub: "set (queue s @ remaining s) \<subseteq> set ps0"
    and finished: "\<And>x. x \<in> set ps0 \<Longrightarrow> x \<in> set (queue s @ remaining s) \<or> row_at (rr_schedule s) x"
    by (auto simp: rows_inv_def)
  have p0: "p \<in> set ps0" using pend sub by (metis list.set_intros(1) subsetD)
  from ids have inj: "\<And>x y. x \<in> set ps0 \<Longrightarrow> y \<in> set ps0 \<Longrightarrow> ProcessID x = ProcessID y \<Longrightarrow> x = y"
    and range: "\<And>x. x \<in> set ps0 \<Longrightarrow> 1 \<le> sint (ProcessID x)"
    by (auto simp: dense_ids_def distinct_map inj_on_def)
  have pidx: "sint (ProcessID p - 1) = sint (ProcessID p) - 1"
    by (rule id_index [OF range [OF p0]])
  have new: "row_at (rr_schedule s') p"
    using idx row by (simp add: row_at_def pidx)
  have old: "row_at (rr_schedule s') x" if "x \<in> set ps0" "x \<noteq> p" "row_at (rr_schedule s) x" for x
  proof -
    have "ProcessID x \<noteq> ProcessID p" using inj [OF that(1) p0] that(2) by blast
    then have "sint (ProcessID x) \<noteq> sint (ProcessID p)" by (auto dest: signed_word_eqI)
    then have "nat (sint (ProcessID x) - 1) \<noteq> nat (sint (ProcessID p) - 1)"
      using range [OF that(1)] range [OF p0] by simp
    then show ?thesis using that(3) by (simp add: row_at_def row pidx)
  qed
  have "x \<in> set (queue s' @ remaining s') \<or> row_at (rr_schedule s') x" if "x \<in> set ps0" for x
  proof (cases "x = p")
    case True
    with new show ?thesis by simp
  next
    case False
    from finished [OF that] show ?thesis
    proof
      assume "x \<in> set (queue s @ remaining s)"
      with pend False have "x \<in> set (queue s1 @ remaining s1)" by simp
      then show ?thesis by (simp add: same)
    next
      assume "row_at (rr_schedule s) x"
      from old [OF that False this] show ?thesis by simp
    qed
  qed
  moreover have "set (queue s' @ remaining s') \<subseteq> set ps0"
    using sub pend same by (metis set_subset_Cons subset_trans)
  ultimately show ?thesis using len row by (simp add: rows_inv_def)
qed

lemma RRSchedule_rows:
  assumes ids: "dense_ids ps0" and run: "RR_loop q (rr_init ps0) = Some r"
  shows "case r of
       Inr s' \<Rightarrow> length (rr_schedule s') = length ps0 \<and> (\<forall>p\<in>set ps0. row_at (rr_schedule s') p)
     | Inl err \<Rightarrow> err = IndexOutOfRange QueueHead 0 0"
proof -
  have init: "rows_inv ps0 (rr_init ps0)" by (simp add: rows_inv_def rr_init_def)
  have post: "case r of
       Inr s' \<Rightarrow> rows_inv ps0 s' \<and> queue s' = [] \<and> remaining s' = []
     | Inl err \<Rightarrow>
         \<exists>s0. rows_inv ps0 s0 \<and> (queue s0 \<noteq> [] \<or> remaining s0 \<noteq> []) \<and>
              dispatch q s0 = Some (Inl err)"
  proof (rule RR_loop_partial [of q "rr_init ps0" r "rows_inv ps0", OF run init])
    show "rows_inv ps0 s'" if "rows_inv ps0 s" "dispatch q s = Some (Inr s')" for s s'
      using that by (rule rows_inv_step [OF ids])
  qed
  have "err = IndexOutOfRange QueueHead 0 0"
    if "rows_inv ps0 s0" "dispatch q s0 = Some (Inl err)"
      "queue s0 \<noteq> [] \<or> remaining s0 \<noteq> []" for s0 err
  proof -
    from dispatch_Inl [OF that(2,3)] show ?thesis
    proof
      assume "\<exists>p\<in>set (queue s0 @ remaining s0).
        err = IndexOutOfRange ScheduleRow (sint (ProcessID p - 1)) (length (rr_schedule s0)) \<and>
        \<not> (0 \<le> sint (ProcessID p - 1) \<and> sint (ProcessID p - 1) < int (length (rr_schedule s0)))"
      then obtain p where p: "p \<in> set (queue s0 @ remaining s0)"
        "\<not> (0 \<le> sint (ProcessID p - 1) \<and> sint (ProcessID p - 1) < int (length (rr_schedule s0)))"
        by blast
      from that(1) p(1) have "p \<in> set ps0" "length (rr_schedule s0) = length ps0"
        by (auto simp: rows_inv_def)
      with ids have "1 \<le> sint (ProcessID p)" "sint (ProcessID p) \<le> int (length (rr_schedule s0))"
        by (auto simp: dense_ids_def)
      with p(2) id_index [of "ProcessID p"] show ?thesis by simp
    qed
  qed
  with post show ?thesis by (cases r) (auto simp: rows_inv_def)
qed

lemma dense_ids_mset:
  assumes "mset xs = mset ys"
  shows "dense_ids xs = dense_ids ys"
proof -
  have "mset (map ProcessID xs) = mset (map ProcessID ys)" using assms by (metis mset_map)
  then have "distinct (map ProcessID xs) = distinct (map ProcessID ys)"
    by (rule mset_eq_imp_distinct_iff)
  moreover have "set xs = set ys" "length xs = length ys"
    using assms by (auto dest: mset_eq_setD mset_eq_length)
  ultimately show ?thesis by (simp add: dense_ids_def)
qed


lemma written_row_identities:
  "RowTurnaround (written_row p st) = RowWait (written_row p st) + RowBurst (written_row p st) \<and>
   RowExit (written_row p st) =
     RowArrival (written_row p st) + RowWait (written_row p st) + RowBurst (written_row p st)"
  by (simp add: written_row_fields)

lemma serve_rows_identities:
  "row \<in> set (serve_rows st ps) \<Longrightarrow>
   RowTurnaround row = RowWait row + RowBurst row \<and>
   RowExit row = RowArrival row + RowWait row + RowBurst row"
  by (induction ps arbitrary: st) (auto simp: written_row_identities)

lemma prio_reach_identities:
  assumes "prio_reach ps0 s"
  shows "case s of (ps, l, st) \<Rightarrow>
      (\<forall>row. Some row \<in> set (schedule st) \<longrightarrow>
         RowTurnaround row = RowWait row + RowBurst row \<and>
         RowExit row = RowArrival row + RowWait row + RowBurst row)"
  using assms
proof (induction rule: prio_reach.induct)
  case start
  show ?case by (simp add: init_state_def)
next
  case (step s)
  obtain ps l st where s: "s = (ps, l, st)" by (cases s) auto
  show ?case
  proof (cases "find_next ps (serviceTime st) l None")
    case None
    with step.IH show ?thesis by (simp add: s prio_step_def)
  next
    case (Some k)
    have "RowTurnaround row = RowWait row + RowBurst row \<and>
         RowExit row = RowArrival row + RowWait row + RowBurst row"
      if "Some row \<in> set ((schedule st)[k := Some (written_row (ps ! k) st)])" for row
    proof -
      from that set_update_subset_insert [of "schedule st" k]
      have "row = written_row (ps ! k) st \<or> Some row \<in> set (schedule st)" by auto
      then show ?thesis using step.IH s written_row_identities by auto
    qed
    then show ?thesis
      by (simp add: s prio_step_def Some account_schedule)
  qed
qed

lemma first_three_policies_identities:
  assumes "Some row \<in> set (out_schedule (FCFSSchedule processes)) \<or>
    Some row \<in> set (out_schedule (fst (SJFSchedule srt processes))) \<or>
    Some row \<in> set (out_schedule (fst (SJFPrioritySchedule srt processes)))"
  shows "RowTurnaround row = RowWait row + RowBurst row \<and>
    RowExit row = RowArrival row + RowWait row + RowBurst row"
proof -
  let ?ps0 = "srt arrival_less processes"
  let ?final = "SJFPriority_loop (?ps0, 0, init_state (length ?ps0))"
  have "prio_reach ?ps0 ?final" by (rule prio_reach_loop) (rule prio_reach.start)
  from prio_reach_identities [OF this]
  have prio: "Some row \<in> set (out_schedule (fst (SJFPrioritySchedule srt processes))) \<Longrightarrow>
      ?thesis"
    by (cases ?final) (auto simp: SJFPrioritySchedule_def Let_def report_def)
  have serve: "Some row \<in> set (schedule (serve_in_order ps)) \<Longrightarrow> ?thesis" for ps
    using serve_rows_identities [of row "init_state (length ps)" ps]
    by (auto simp: schedule_serve_in_order)
  from assms prio serve show ?thesis
    by (auto simp: FCFSSchedule_def SJFSchedule_def Let_def report_def)
qed




section \<open>Rows indexed by process id\<close>

text \<open>
  C10. \<open>RRSchedule\<close> stores the row of a process at index \<open>ProcessID - 1\<close> of a table of
  \<open>N\<close> slots. For every list whose ids are dense, whatever the quantum, no row write of
  a run is out of bounds, and after a run that completes every process has its row at
  index \<open>ProcessID - 1\<close>; with a positive quantum the run returns. For a list with an id
  outside \<open>1..N\<close> the write is out of bounds: a single process with id 5 makes the run
  panic at index 4 of a table of length 1.
\<close>

theorem C10_rows_stored_by_id:
  assumes sorted: "sort_Slice_post arrival_less processes (srt arrival_less processes)"
    and ids: "dense_ids processes"
  shows "(\<forall>r. RRSchedule srt processes timeSlice = Some r \<longrightarrow>
            (\<forall>i n. r \<noteq> Inl (IndexOutOfRange ScheduleRow i n)) \<and>
            (\<forall>out arr. r = Inr (out, arr) \<longrightarrow>
               length (out_schedule out) = length processes \<and>
               (\<forall>p\<in>set processes. row_at (out_schedule out) p))) \<and>
         (0 <s timeSlice \<longrightarrow> (\<exists>r. RRSchedule srt processes timeSlice = Some r)) \<and>
         RRSchedule insertion_sort [mkProcess 5 1 0 0] 1 =
           Some (Inl (IndexOutOfRange ScheduleRow 4 1))"
proof -
  let ?ps0 = "srt arrival_less processes"
  from sorted have perm: "mset ?ps0 = mset processes" by (simp add: sort_Slice_post_def)
  then have ids0: "dense_ids ?ps0" using ids dense_ids_mset by blast
  have same: "set ?ps0 = set processes" "length ?ps0 = length processes"
    using perm by (auto dest: mset_eq_setD mset_eq_length)
  have safe: "(\<forall>i n. r \<noteq> Inl (IndexOutOfRange ScheduleRow i n)) \<and>
            (\<forall>out arr. r = Inr (out, arr) \<longrightarrow>
               length (out_schedule out) = length processes \<and>
               (\<forall>p\<in>set processes. row_at (out_schedule out) p))"
    if run: "RRSchedule srt processes timeSlice = Some r" for r
  proof -
    from run obtain r0 where r0: "RR_loop timeSlice (rr_init ?ps0) = Some r0"
      by (auto simp: RRSchedule_unfold split: option.splits)
    note rows = RRSchedule_rows [OF ids0 r0]
    show ?thesis
    proof (cases r0)
      case (Inl err)
      with rows run r0 show ?thesis by (auto simp: RRSchedule_unfold)
    next
      case (Inr s')
      from rr_report_cases [of s'] show ?thesis
      proof
        assume "rr_report s' = Inl (IndexOutOfRange GanttLast (- 1) 0)"
        with run r0 Inr show ?thesis by (auto simp: RRSchedule_unfold)
      next
        assume "\<exists>out. rr_report s' = Inr out \<and> out_schedule out = rr_schedule s' \<and>
          out_gantt out = rr_gantt s'"
        then obtain out where "rr_report s' = Inr out" "out_schedule out = rr_schedule s'"
          by blast
        with rows run r0 Inr same show ?thesis by (auto simp: RRSchedule_unfold)
      qed
    qed
  qed
  have "RRSchedule insertion_sort [mkProcess 5 1 0 0] 1 =
      Some (Inl (IndexOutOfRange ScheduleRow 4 1))"
    by code_simp
  with safe RRSchedule_returns [of timeSlice srt processes] show ?thesis by blast
qed

text \<open>The theorem on the scenario, whose ids are 1, 2 and 3, with a quantum of 1.\<close>

theorem C10_rows_stored_by_id_witness:
  "sort_Slice_post arrival_less scenario (insertion_sort arrival_less scenario) \<and>
   dense_ids scenario \<and> 0 <s (1 :: int64) \<and>
   (\<exists>r. RRSchedule insertion_sort scenario 1 = Some r \<and>
      (\<forall>i n. r \<noteq> Inl (IndexOutOfRange ScheduleRow i n)) \<and>
      (\<forall>out arr. r = Inr (out, arr) \<longrightarrow>
         length (out_schedule out) = length scenario \<and>
         (\<forall>p\<in>set scenario. row_at (out_schedule out) p)))"
proof -
  have a: "sort_Slice_post arrival_less scenario (insertion_sort arrival_less scenario)"
    by code_simp
  have b: "dense_ids scenario" by code_simp
  have c: "0 <s (1 :: int64)" by (simp add: word_sless_alt)
  from C10_rows_stored_by_id [of scenario insertion_sort 1, OF a b] a b c show ?thesis
    by blast
qed

section \<open>The sign of the waiting time\<close>




section \<open>The order of service of shortest job first\<close>

text \<open>
  C9. Claim: \<open>SJFSchedule\<close> services the processes in non-decreasing order of burst,
  and processes of equal burst in their input order. The second part does not follow
  from what \<open>sort.Slice\<close> promises: with a sorter that meets its contract, process 7
  is serviced before process 2, which has the same burst and comes first in the input.
\<close>

theorem C9_ties_counterexample:
  "sort_Slice_post burst_less tied (gap_insertion_sort burst_less tied) \<and>
   map PID (out_gantt (fst (SJFSchedule gap_insertion_sort tied))) = [3, 4, 5, 6, 7, 2, 1]"
  by code_simp

text \<open>
  C9, amended: \<open>SJFSchedule\<close> services the processes in the order in which \<open>sort.Slice\<close>
  leaves them: a permutation of the input in non-decreasing order of burst, with the
  rows of the table and the intervals of the Gantt chart in that order. The order among
  processes of equal burst is the one \<open>sort.Slice\<close> gives.
\<close>

theorem C9_sjf_order:
  assumes "sort_Slice_post burst_less processes (srt burst_less processes)"
  shows "mset (srt burst_less processes) = mset processes \<and>
    map PID (out_gantt (fst (SJFSchedule srt processes))) =
      map ProcessID (srt burst_less processes) \<and>
    map (map_option RowID) (out_schedule (fst (SJFSchedule srt processes))) =
      map (Some \<circ> ProcessID) (srt burst_less processes) \<and>
    map (map_option RowBurst) (out_schedule (fst (SJFSchedule srt processes))) =
      map (Some \<circ> BurstDuration) (srt burst_less processes) \<and>
    sorted_wrt (\<lambda>a b. BurstDuration a \<le>s BurstDuration b) (srt burst_less processes)"
proof -
  let ?ps = "srt burst_less processes"
  from assms have perm: "mset ?ps = mset processes"
    and srt: "sorted_wrt (\<lambda>a b. \<not> burst_less b a) ?ps"
    by (simp_all add: sort_Slice_post_def)
  have order: "sorted_wrt (\<lambda>a b. BurstDuration a \<le>s BurstDuration b) ?ps"
    using srt by (rule sorted_wrt_mono_rel [rotated])
      (simp add: burst_less_def word_sle_eq word_sless_alt)
  have gantt: "map PID (gantt (serve_in_order ?ps)) = map ProcessID ?ps"
    by (simp add: serve_in_order_eq gantt_serve_from_pids init_state_def)
  have "map Some (map RowID (serve_rows (init_state (length ?ps)) ?ps)) =
      map Some (map ProcessID ?ps)"
    by (simp only: serve_rows_ids)
  then have ids: "map (map_option RowID) (schedule (serve_in_order ?ps)) =
      map (Some \<circ> ProcessID) ?ps"
    by (simp add: schedule_serve_in_order comp_def)
  have "map Some (map RowBurst (serve_rows (init_state (length ?ps)) ?ps)) =
      map Some (map BurstDuration ?ps)"
    by (simp only: serve_rows_bursts)
  then have bursts: "map (map_option RowBurst) (schedule (serve_in_order ?ps)) =
      map (Some \<circ> BurstDuration) ?ps"
    by (simp add: schedule_serve_in_order comp_def)
  from perm order gantt ids bursts show ?thesis
    by (simp add: SJFSchedule_def Let_def report_def)
qed

text \<open>The theorem on the scenario: the processes are serviced in the order 3, 2, 1.\<close>

theorem C9_sjf_order_witness:
  "sort_Slice_post burst_less scenario (insertion_sort burst_less scenario) \<and>
   map PID (out_gantt (fst (SJFSchedule insertion_sort scenario))) = [3, 2, 1] \<and>
   sorted_wrt (\<lambda>a b. BurstDuration a \<le>s BurstDuration b) (insertion_sort burst_less scenario)"
proof -
  have a: "sort_Slice_post burst_less scenario (insertion_sort burst_less scenario)"
    by code_simp
  have b: "map ProcessID (insertion_sort burst_less scenario) = [3, 2, 1]" by code_simp
  from C9_sjf_order [of scenario insertion_sort, OF a] a b show ?thesis by simp
qed

end
